theory Spec2Isabelle
  imports Main "HOL-Library.Signed_Division"
begin

section \<open>The probing hash table of \<open>Final/hash_table.h\<close>\<close>

text \<open>
  The class template \<open>nwacc::hash_table<T, K>\<close> is embedded with \<open>'t\<close> for the element
  type \<open>T\<close> and \<open>'k\<close> for the key type \<open>K\<close>; \<open>==\<close> and \<open>!=\<close> on them are equality.
  \<open>std::size_t\<close> values (positions, \<open>current_size\<close>, hash values) and the offset of the
  probe are natural numbers: a position stays below three times the length of the
  vector and the offset below twice the length plus 3, so for a vector that
  \<open>next_prime\<close> can size neither leaves its machine type before the loop ends. The \<open>int\<close>
  values of \<open>is_prime\<close> and \<open>next_prime\<close> are integers with every signed overflow
  written out as an error.

  Embedded are the constructor, \<open>make_empty\<close>, \<open>contains\<close>, both overloads of \<open>insert\<close>,
  \<open>remove\<close>, \<open>get_key\<close>, \<open>get_value\<close>, \<open>is_prime\<close>, \<open>next_prime\<close>, \<open>is_active\<close>,
  \<open>find_position\<close>, \<open>rehash\<close> and \<open>hash\<close>. The two overloads of \<open>contains\<close> and of
  \<open>remove\<close> are told apart by the suffixes \<open>_value\<close> and \<open>_key\<close>; \<open>insert\<close> for
  \<open>const\<close> references is \<open>insert_entry\<close> and the constructor \<open>hash_table_new\<close>.
\<close>

subsection \<open>Data\<close>

datatype entry_type = kActive | kEmpty | kDeleted

record ('t, 'k) entry =
  element :: 't
  key :: 'k
  type :: entry_type

record ('t, 'k) hash_table =
  array :: "('t, 'k) entry list"
  current_size :: nat

text \<open>
  What the operations can do besides returning: \<open>NotFound\<close> is the \<open>std::length_error\<close>
  thrown by \<open>get_key\<close> and \<open>get_value\<close>; \<open>AllocFail\<close> is the exception of a vector asked
  for a negative (hence huge) size; the other three are undefined behaviour of C++
  (signed overflow or a size that does not fit \<open>int\<close>, a subscript past the end of the
  vector, the remainder of a division by zero). \<open>DepthExceeded\<close> belongs to the model
  alone (see \<open>rehash_spec\<close>).
\<close>

datatype error = NotFound | AllocFail | Overflow | OutOfBounds | DivByZero | DepthExceeded

text \<open>
  What the template takes from its arguments: \<open>std::hash<T>\<close>, the implicit conversion
  from \<open>K\<close> to \<open>T\<close> that every call \<open>find_position(key)\<close> needs (\<open>find_position\<close> is
  declared for \<open>const T &\<close> only), and the values \<open>T{}\<close> and \<open>K{}\<close> of a
  default-constructed entry.
\<close>

record ('t, 'k) template_args =
  hash_object :: "'t \<Rightarrow> nat"
  key_to_element :: "'k \<Rightarrow> 't"
  default_element :: 't
  default_key :: 'k

definition INT_MAX :: int where
  "INT_MAX = 2147483647"

subsection \<open>\<open>is_prime\<close> and \<open>next_prime\<close>\<close>

text \<open>
  \<open>%\<close> of C++ truncates: it is \<open>smod\<close>. The loop of \<open>is_prime\<close> evaluates
  \<open>counter * counter\<close> in \<open>int\<close>; a product above \<open>INT_MAX\<close> is the error \<open>Overflow\<close>.
  \<open>counter += 2\<close> cannot overflow after that test.
\<close>

function is_prime_loop :: "int \<Rightarrow> int \<Rightarrow> error + bool" where
  "is_prime_loop number counter =
     (if counter * counter > INT_MAX then Inl Overflow
      else if counter * counter \<le> number then
        (if number smod counter = 0 then Inr False
         else is_prime_loop number (counter + 2))
      else Inr True)"
  by pat_completeness auto

termination
proof (relation "measure (\<lambda>(number, counter). nat (46341 - counter))", goal_cases)
  case 1
  show ?case by simp
next
  case (2 number counter)
  have "counter \<le> 46340"
  proof (rule ccontr)
    assume "\<not> counter \<le> 46340"
    then have "46341 \<le> counter" by simp
    then have "46341 * 46341 \<le> counter * counter"
      by (intro mult_mono) simp_all
    with 2 show False by (simp add: INT_MAX_def)
  qed
  then show ?case by simp
qed

declare is_prime_loop.simps [simp del]

definition is_prime :: "int \<Rightarrow> error + bool" where
  "is_prime number =
     (if number = 2 \<or> number = 3 then Inr True
      else if number = 1 \<or> number smod 2 = 0 then Inr False
      else is_prime_loop number 3)"

text \<open>
  The loop of \<open>next_prime\<close>: \<open>while (!is_prime(number)) number += 2\<close>. The addition
  overflows when \<open>number\<close> is above \<open>INT_MAX - 2\<close>.
\<close>

function next_prime_loop :: "int \<Rightarrow> error + int" where
  "next_prime_loop number =
     (case is_prime number of
        Inl e \<Rightarrow> Inl e
      | Inr True \<Rightarrow> Inr number
      | Inr False \<Rightarrow>
          if number > INT_MAX - 2 then Inl Overflow
          else next_prime_loop (number + 2))"
  by pat_completeness auto
termination
  by (relation "measure (\<lambda>number. nat (INT_MAX - number))") (auto simp: INT_MAX_def)

declare next_prime_loop.simps [simp del]

text \<open>\<open>++number\<close> is applied to an even number, which is not \<open>INT_MAX\<close>.\<close>

definition next_prime :: "int \<Rightarrow> error + int" where
  "next_prime number =
     next_prime_loop (if number smod 2 = 0 then number + 1 else number)"

subsection \<open>Construction\<close>

definition default_entry :: "('t, 'k) template_args \<Rightarrow> ('t, 'k) entry" where
  "default_entry P = \<lparr>element = default_element P, key = default_key P, type = kEmpty\<rparr>"

definition make_empty :: "('t, 'k) hash_table \<Rightarrow> ('t, 'k) hash_table" where
  "make_empty t =
     t\<lparr>current_size := 0, array := map (\<lambda>e. e\<lparr>type := kEmpty\<rparr>) (array t)\<rparr>"

text \<open>
  The constructor \<open>hash_table(int size)\<close>: a vector of \<open>next_prime(size)\<close>
  default-constructed entries, then \<open>make_empty\<close>. A negative result converts to a
  size no vector can have.
\<close>

definition hash_table_new :: "('t, 'k) template_args \<Rightarrow> int \<Rightarrow> error + ('t, 'k) hash_table" where
  "hash_table_new P requested =
     (case next_prime requested of
        Inl e \<Rightarrow> Inl e
      | Inr n \<Rightarrow>
          if n < 0 then Inl AllocFail
          else Inr (make_empty \<lparr>array = replicate (nat n) (default_entry P), current_size = 0\<rparr>))"

subsection \<open>Probing\<close>

definition hash :: "('t, 'k) template_args \<Rightarrow> ('t, 'k) hash_table \<Rightarrow> 't \<Rightarrow> error + nat" where
  "hash P t v =
     (if length (array t) = 0 then Inl DivByZero
      else Inr (hash_object P v mod length (array t)))"

text \<open>
  The loop of \<open>find_position\<close>. Its condition reads \<open>array[current_position]\<close>; past the
  end of the vector that is the error \<open>OutOfBounds\<close>. The position wraps by one
  subtraction of the size, as the source does.
\<close>

function find_position_loop :: "('t, 'k) hash_table \<Rightarrow> 't \<Rightarrow> nat \<Rightarrow> nat \<Rightarrow> error + nat" where
  "find_position_loop t v current_position off_set =
     (if length (array t) \<le> current_position then Inl OutOfBounds
      else if type (array t ! current_position) \<noteq> kEmpty
              \<and> element (array t ! current_position) \<noteq> v
      then
        (let moved = current_position + off_set
         in find_position_loop t v
              (if length (array t) \<le> moved then moved - length (array t) else moved)
              (off_set + 2))
      else Inr current_position)"
  by pat_completeness auto
termination
  by (relation "measure (\<lambda>(t, v, current_position, off_set).
        if length (array t) \<le> current_position then 0
        else 1 + (2 * length (array t) + 2 - off_set))")
     (auto simp: Let_def split: if_splits)

declare find_position_loop.simps [simp del]

definition find_position :: "('t, 'k) template_args \<Rightarrow> ('t, 'k) hash_table \<Rightarrow> 't \<Rightarrow> error + nat" where
  "find_position P t v =
     (case hash P t v of
        Inl e \<Rightarrow> Inl e
      | Inr h \<Rightarrow> find_position_loop t v h 1)"

text \<open>
  \<open>is_active\<close> is only called with a position that \<open>find_position\<close> returned, which is
  inside the vector (lemma \<open>find_position_in_range\<close> below).
\<close>

definition is_active :: "('t, 'k) hash_table \<Rightarrow> nat \<Rightarrow> bool" where
  "is_active t current_position = (type (array t ! current_position) = kActive)"

definition contains_value :: "('t, 'k) template_args \<Rightarrow> ('t, 'k) hash_table \<Rightarrow> 't \<Rightarrow> error + bool" where
  "contains_value P t v =
     (case find_position P t v of
        Inl e \<Rightarrow> Inl e
      | Inr current_position \<Rightarrow> Inr (is_active t current_position))"

definition contains_key :: "('t, 'k) template_args \<Rightarrow> ('t, 'k) hash_table \<Rightarrow> 'k \<Rightarrow> error + bool" where
  "contains_key P t k = contains_value P t (key_to_element P k)"

subsection \<open>Removal and the accessors\<close>

definition remove_value ::
  "('t, 'k) template_args \<Rightarrow> ('t, 'k) hash_table \<Rightarrow> 't \<Rightarrow> error + bool \<times> ('t, 'k) hash_table" where
  "remove_value P t v =
     (case find_position P t v of
        Inl e \<Rightarrow> Inl e
      | Inr current_position \<Rightarrow>
          if \<not> is_active t current_position then Inr (False, t)
          else Inr (True,
                 t\<lparr>array := (array t)[current_position :=
                                (array t ! current_position)\<lparr>type := kDeleted\<rparr>]\<rparr>))"


text \<open>
  The test of \<open>get_key\<close> and \<open>get_value\<close> is \<open>array[current_position].type == !kActive\<close>:
  the enumerators are 0, 1 and 2 in the order of their declaration, \<open>!\<close> maps 0 to
  \<open>true\<close>, which compares as 1. Both functions are declared \<open>void\<close> and return an
  expression; the model returns that expression.
\<close>

fun enumerator :: "entry_type \<Rightarrow> int" where
  "enumerator kActive = 0"
| "enumerator kEmpty = 1"
| "enumerator kDeleted = 2"

definition logical_not :: "int \<Rightarrow> int" where
  "logical_not x = (if x = 0 then 1 else 0)"

definition get_value :: "('t, 'k) template_args \<Rightarrow> ('t, 'k) hash_table \<Rightarrow> 't \<Rightarrow> error + 'k" where
  "get_value P t v =
     (case find_position P t v of
        Inl e \<Rightarrow> Inl e
      | Inr current_position \<Rightarrow>
          if enumerator (type (array t ! current_position)) = logical_not (enumerator kActive)
          then Inl NotFound
          else Inr (key (array t ! current_position)))"

definition get_key :: "('t, 'k) template_args \<Rightarrow> ('t, 'k) hash_table \<Rightarrow> 'k \<Rightarrow> error + 't" where
  "get_key P t k =
     (case find_position P t (key_to_element P k) of
        Inl e \<Rightarrow> Inl e
      | Inr current_position \<Rightarrow>
          if enumerator (type (array t ! current_position)) = logical_not (enumerator kActive)
          then Inl NotFound
          else Inr (element (array t ! current_position)))"

subsection \<open>\<open>rehash\<close> and \<open>insert\<close>\<close>

text \<open>
  \<open>rehash\<close> re-inserts with \<open>this->insert(std::move(entry.element))\<close>. The class
  declares \<open>insert\<close> with two parameters only, so the overload that takes the element
  alone is not in the source: it is the parameter \<open>insert_element\<close> of the model, any
  function from the element and the table to an error or the new table. \<open>rehash\<close>
  hands it the element of each Active entry of the old vector, in the order of the
  vector, and nothing else.

  \<open>std::vector::resize\<close> keeps the entries below the new size and appends
  default-constructed ones. \<open>2 * old_array.size()\<close> is a \<open>std::size_t\<close> passed to an
  \<open>int\<close> parameter; a value above \<open>INT_MAX\<close> is the error \<open>Overflow\<close>. \<open>rehash\<close> does
  not touch \<open>current_size\<close>.
\<close>

definition resize :: "('t, 'k) template_args \<Rightarrow> ('t, 'k) entry list \<Rightarrow> nat \<Rightarrow> ('t, 'k) entry list" where
  "resize P xs n =
     (if n \<le> length xs then take n xs
      else xs @ replicate (n - length xs) (default_entry P))"

definition int_of_size_t :: "nat \<Rightarrow> error + int" where
  "int_of_size_t n = (if int n \<le> INT_MAX then Inr (int n) else Inl Overflow)"

fun reinsert_all ::
  "('t \<Rightarrow> ('t, 'k) hash_table \<Rightarrow> error + ('t, 'k) hash_table) \<Rightarrow> ('t, 'k) entry list
     \<Rightarrow> ('t, 'k) hash_table \<Rightarrow> error + ('t, 'k) hash_table" where
  "reinsert_all insert_element [] t = Inr t"
| "reinsert_all insert_element (e # old_array) t =
     (if type e = kActive then
        (case insert_element (element e) t of
           Inl err \<Rightarrow> Inl err
         | Inr t' \<Rightarrow> reinsert_all insert_element old_array t')
      else reinsert_all insert_element old_array t)"

definition rehash ::
  "('t, 'k) template_args \<Rightarrow> ('t \<Rightarrow> ('t, 'k) hash_table \<Rightarrow> error + ('t, 'k) hash_table)
     \<Rightarrow> ('t, 'k) hash_table \<Rightarrow> error + ('t, 'k) hash_table" where
  "rehash P insert_element t =
     (let old_array = array t in
      case int_of_size_t (2 * length old_array) of
        Inl e \<Rightarrow> Inl e
      | Inr doubled \<Rightarrow>
          (case next_prime doubled of
             Inl e \<Rightarrow> Inl e
           | Inr n \<Rightarrow>
               if n < 0 then Inl AllocFail
               else reinsert_all insert_element old_array
                      (t\<lparr>array := map (\<lambda>e. e\<lparr>type := kEmpty\<rparr>)
                                     (resize P (array t) (nat n))\<rparr>)))"

text \<open>
  \<open>insert(const T & value, const K & key)\<close>. The position is \<open>find_position(key)\<close>:
  the key, converted to \<open>T\<close>, is hashed and compared with the stored elements.
\<close>

definition insert_entry ::
  "('t, 'k) template_args \<Rightarrow> ('t \<Rightarrow> ('t, 'k) hash_table \<Rightarrow> error + ('t, 'k) hash_table)
     \<Rightarrow> 't \<Rightarrow> 'k \<Rightarrow> ('t, 'k) hash_table \<Rightarrow> error + bool \<times> ('t, 'k) hash_table" where
  "insert_entry P insert_element v k t =
     (case find_position P t (key_to_element P k) of
        Inl e \<Rightarrow> Inl e
      | Inr current_position \<Rightarrow>
          if is_active t current_position then
            (if key (array t ! current_position) = k
             then Inr (False,
                    t\<lparr>array := (array t)[current_position :=
                                   (array t ! current_position)\<lparr>element := v\<rparr>]\<rparr>)
             else Inr (False, t))
          else
            (let written =
                   t\<lparr>array := (array t)[current_position :=
                                  (array t ! current_position)
                                    \<lparr>element := v, key := k, type := kActive\<rparr>],
                     current_size := current_size t + 1\<rparr>
             in if current_size written > length (array written) div 2
                then (case rehash P insert_element written of
                        Inl e \<Rightarrow> Inl e
                      | Inr rehashed \<Rightarrow> Inr (True, rehashed))
                else Inr (True, written)))"

text \<open>
  The same \<open>insert(const T & value, const K & key)\<close> once more, with the call
  \<open>this->rehash()\<close> as the parameter \<open>rehash_call\<close>; \<open>insert_entry\<close> is \<open>insert_with\<close> at
  the \<open>rehash\<close> of the source (lemma \<open>insert_entry_with\<close>).
\<close>

definition insert_with ::
  "('t, 'k) template_args \<Rightarrow> (('t, 'k) hash_table \<Rightarrow> error + ('t, 'k) hash_table)
     \<Rightarrow> 't \<Rightarrow> 'k \<Rightarrow> ('t, 'k) hash_table \<Rightarrow> error + bool \<times> ('t, 'k) hash_table" where
  "insert_with P rehash_call v k t =
     (case find_position P t (key_to_element P k) of
        Inl e \<Rightarrow> Inl e
      | Inr current_position \<Rightarrow>
          if is_active t current_position then
            (if key (array t ! current_position) = k
             then Inr (False,
                    t\<lparr>array := (array t)[current_position :=
                                   (array t ! current_position)\<lparr>element := v\<rparr>]\<rparr>)
             else Inr (False, t))
          else
            (let written =
                   t\<lparr>array := (array t)[current_position :=
                                  (array t ! current_position)
                                    \<lparr>element := v, key := k, type := kActive\<rparr>],
                     current_size := current_size t + 1\<rparr>
             in if current_size written > length (array written) div 2
                then (case rehash_call written of
                        Inl e \<Rightarrow> Inl e
                      | Inr rehashed \<Rightarrow> Inr (True, rehashed))
                else Inr (True, written)))"

text \<open>
  \<open>insert(T && value, K && key)\<close>. It differs from the other overload where the slot is
  not Active: it assigns \<open>std::move(value)\<close> and then \<open>std::move(key)\<close> to the whole
  entry. Either right-hand side becomes an entry through the constructor
  \<open>entry(const T & e = T{}, const K & k = K{}, entry_type t = kEmpty)\<close>, the second after
  the conversion of the key to \<open>T\<close>, so the slot ends with the converted key as element
  and \<open>K{}\<close> as key; then its tag is set to kActive.
\<close>

definition insert_move_with ::
  "('t, 'k) template_args \<Rightarrow> (('t, 'k) hash_table \<Rightarrow> error + ('t, 'k) hash_table)
     \<Rightarrow> 't \<Rightarrow> 'k \<Rightarrow> ('t, 'k) hash_table \<Rightarrow> error + bool \<times> ('t, 'k) hash_table" where
  "insert_move_with P rehash_call v k t =
     (case find_position P t (key_to_element P k) of
        Inl e \<Rightarrow> Inl e
      | Inr current_position \<Rightarrow>
          if is_active t current_position then
            (if key (array t ! current_position) = k
             then Inr (False,
                    t\<lparr>array := (array t)[current_position :=
                                   (array t ! current_position)\<lparr>element := v\<rparr>]\<rparr>)
             else Inr (False, t))
          else
            (let written =
                   t\<lparr>array := (array t)[current_position :=
                                  \<lparr>element = key_to_element P k, key = default_key P,
                                   type = kActive\<rparr>],
                     current_size := current_size t + 1\<rparr>
             in if current_size written > length (array written) div 2
                then (case rehash_call written of
                        Inl e \<Rightarrow> Inl e
                      | Inr rehashed \<Rightarrow> Inr (True, rehashed))
                else Inr (True, written)))"

subsection \<open>The re-insertion of \<open>rehash\<close>, from the spec\<close>

text \<open>
  Modelled from the spec: the overload of \<open>insert\<close> that \<open>rehash\<close> calls with the element
  alone (\<open>hash_table.h\<close>, line 374) is missing from the source. The spec says of
  \<open>rehash\<close> (section 4.1): "For every slot in the old sequence that is Active, re-insert
  its value/key pair into the new table via the same insert path (recomputing its
  position under the new capacity/hash)." \<open>rehash_pairs\<close> is \<open>rehash\<close> with the call
  replaced by a re-insertion \<open>reinsert\<close> that receives the element and the key of the
  entry; everything else is as in the source, so \<open>current_size\<close> is left as it is.
\<close>

fun reinsert_pairs ::
  "('t \<Rightarrow> 'k \<Rightarrow> ('t, 'k) hash_table \<Rightarrow> error + ('t, 'k) hash_table) \<Rightarrow> ('t, 'k) entry list
     \<Rightarrow> ('t, 'k) hash_table \<Rightarrow> error + ('t, 'k) hash_table" where
  "reinsert_pairs reinsert [] t = Inr t"
| "reinsert_pairs reinsert (e # old_array) t =
     (if type e = kActive then
        (case reinsert (element e) (key e) t of
           Inl err \<Rightarrow> Inl err
         | Inr t' \<Rightarrow> reinsert_pairs reinsert old_array t')
      else reinsert_pairs reinsert old_array t)"

definition rehash_pairs ::
  "('t, 'k) template_args \<Rightarrow> ('t \<Rightarrow> 'k \<Rightarrow> ('t, 'k) hash_table \<Rightarrow> error + ('t, 'k) hash_table)
     \<Rightarrow> ('t, 'k) hash_table \<Rightarrow> error + ('t, 'k) hash_table" where
  "rehash_pairs P reinsert t =
     (let old_array = array t in
      case int_of_size_t (2 * length old_array) of
        Inl e \<Rightarrow> Inl e
      | Inr doubled \<Rightarrow>
          (case next_prime doubled of
             Inl e \<Rightarrow> Inl e
           | Inr n \<Rightarrow>
               if n < 0 then Inl AllocFail
               else reinsert_pairs reinsert old_array
                      (t\<lparr>array := map (\<lambda>e. e\<lparr>type := kEmpty\<rparr>)
                                     (resize P (array t) (nat n))\<rparr>)))"

text \<open>
  Modelled from the spec: "the same insert path" is \<open>insert\<close> for \<open>const\<close> references,
  whose result flag the loop of \<open>rehash\<close> drops, and whose own call of \<open>rehash\<close>
  re-inserts in the same way. \<open>rehash_spec\<close> ties the two together. Its first argument
  bounds the nesting of rehashes, and \<open>DepthExceeded\<close> reports that the bound was reached;
  for the tables the operations produce a bound of 2 is never reached (lemmas
  \<open>insert_with_depth_2\<close> and \<open>insert_move_with_depth_2\<close>).
\<close>

definition insert_pair ::
  "('t, 'k) template_args \<Rightarrow> (('t, 'k) hash_table \<Rightarrow> error + ('t, 'k) hash_table)
     \<Rightarrow> 't \<Rightarrow> 'k \<Rightarrow> ('t, 'k) hash_table \<Rightarrow> error + ('t, 'k) hash_table" where
  "insert_pair P rehash_call v k t =
     (case insert_with P rehash_call v k t of
        Inl e \<Rightarrow> Inl e
      | Inr (inserted, t') \<Rightarrow> Inr t')"

primrec rehash_spec ::
  "nat \<Rightarrow> ('t, 'k) template_args \<Rightarrow> ('t, 'k) hash_table \<Rightarrow> error + ('t, 'k) hash_table" where
  "rehash_spec 0 P = (\<lambda>t. Inl DepthExceeded)"
| "rehash_spec (Suc depth) P = rehash_pairs P (insert_pair P (rehash_spec depth P))"

subsection \<open>Notions the properties are stated with\<close>

text \<open>
  The position and the offset that the loop of \<open>find_position\<close> holds when it tests
  its condition for the \<open>k\<close>-th time (counting from 0), for a table of \<open>n\<close> slots and
  the home slot \<open>h\<close>: the loop body applied \<open>k\<close> times to \<open>(h, 1)\<close>. The offset is
  \<open>2 * k + 1\<close> then.
\<close>

fun probe :: "nat \<Rightarrow> nat \<Rightarrow> nat \<Rightarrow> nat" where
  "probe n h 0 = h"
| "probe n h (Suc k) =
     (let moved = probe n h k + (2 * k + 1)
      in if n \<le> moved then moved - n else moved)"

text \<open>The condition of the loop of \<open>find_position\<close> at slot \<open>i\<close>.\<close>

definition keeps_probing :: "('t, 'k) hash_table \<Rightarrow> 't \<Rightarrow> nat \<Rightarrow> bool" where
  "keeps_probing t v i = (type (array t ! i) \<noteq> kEmpty \<and> element (array t ! i) \<noteq> v)"

definition prime_nat :: "nat \<Rightarrow> bool" where
  "prime_nat p = (1 < p \<and> (\<forall>d \<in> {2..<p}. \<not> d dvd p))"

definition smallest_prime_from :: "nat \<Rightarrow> nat \<Rightarrow> bool" where
  "smallest_prime_from n p = (prime_nat p \<and> n \<le> p \<and> (\<forall>q \<in> {n..<p}. \<not> prime_nat q))"

text \<open>The number of slots that are not Empty: the Active and the Deleted ones.\<close>

definition occupied :: "('t, 'k) hash_table \<Rightarrow> nat" where
  "occupied t = length (filter (\<lambda>e. type e \<noteq> kEmpty) (array t))"


text \<open>
  What every such table satisfies: the capacity is a prime from 3 on, every slot that is
  not Empty has been counted, and the count is within the load bound.
\<close>

definition well_formed :: "('t, 'k) hash_table \<Rightarrow> bool" where
  "well_formed t =
     (prime_nat (length (array t)) \<and> 3 \<le> length (array t) \<and> occupied t \<le> current_size t
      \<and> current_size t \<le> length (array t) div 2)"

text \<open>
  For the bound on the nesting of rehashes: the number of Active entries, what one
  insertion that activates a slot does to a table, and what a rehash does when the
  count and the Active entries together fit the length.
\<close>

definition actives :: "('t, 'k) entry list \<Rightarrow> nat" where
  "actives xs = length (filter (\<lambda>e. type e = kActive) xs)"

definition grows_by :: "('t, 'k) hash_table \<Rightarrow> ('t, 'k) hash_table \<Rightarrow> bool" where
  "grows_by s w = (length (array w) = length (array s) \<and> current_size w = current_size s + 1
                   \<and> actives (array w) \<le> actives (array s) + 1)"

definition rehash_fits ::
  "(('t, 'k) hash_table \<Rightarrow> error + ('t, 'k) hash_table) \<Rightarrow> bool" where
  "rehash_fits rehash_call =
     (\<forall>w. current_size w + actives (array w) \<le> length (array w) \<longrightarrow>
        rehash_call w \<noteq> Inl DepthExceeded
        \<and> (\<forall>t'. rehash_call w = Inr t' \<longrightarrow> 2 * length (array w) \<le> length (array t')
               \<and> current_size t' \<le> current_size w + actives (array w)
               \<and> actives (array t') \<le> actives (array w)))"

text \<open>\<open>m\<close> has no divisor from 2 up to, but not including, \<open>c\<close>.\<close>

definition no_divisor_below :: "int \<Rightarrow> int \<Rightarrow> bool" where
  "no_divisor_below m c = (\<forall>d. 2 \<le> d \<and> d < c \<longrightarrow> \<not> d dvd m)"

subsection \<open>Concrete tables\<close>

text \<open>
  An instance with natural numbers for elements and keys (two unsigned integer types
  of different width in C++), the identity as hash function, as \<open>std::hash\<close> is for
  integers in the common libraries, and the widening conversion from key to element.
\<close>

definition nat_args :: "(nat, nat) template_args" where
  "nat_args = \<lparr>hash_object = (\<lambda>v. v), key_to_element = (\<lambda>k. k),
               default_element = 0, default_key = 0\<rparr>"

definition slot :: "nat \<Rightarrow> nat \<Rightarrow> entry_type \<Rightarrow> (nat, nat) entry" where
  "slot v k s = \<lparr>element = v, key = k, type = s\<rparr>"

definition table_of :: "(nat, nat) entry list \<Rightarrow> nat \<Rightarrow> (nat, nat) hash_table" where
  "table_of slots n = \<lparr>array = slots, current_size = n\<rparr>"

text \<open>A table of three slots with one entry at its home slot, and the same after its removal.\<close>

definition one_entry_table :: "(nat, nat) hash_table" where
  "one_entry_table = table_of [slot 0 0 kEmpty, slot 0 0 kEmpty, slot 5 5 kActive] 1"

definition tombstone_table :: "(nat, nat) hash_table" where
  "tombstone_table = table_of [slot 0 0 kEmpty, slot 0 0 kEmpty, slot 5 5 kDeleted] 1"

text \<open>Five slots, two of them used.\<close>

definition sparse_table :: "(nat, nat) hash_table" where
  "sparse_table = table_of [slot 10 10 kActive, slot 11 11 kDeleted, slot 0 0 kEmpty,
                            slot 0 0 kEmpty, slot 0 0 kEmpty] 2"

text \<open>
  Two tables over the load bound that hold the same elements and keys at the same
  slots; element 10 is Active with key 1 in the first and with key 2 in the second.
\<close>

definition forget_a :: "(nat, nat) hash_table" where
  "forget_a = table_of [slot 10 1 kActive, slot 10 2 kDeleted, slot 0 0 kEmpty] 2"

definition forget_b :: "(nat, nat) hash_table" where
  "forget_b = table_of [slot 10 1 kDeleted, slot 10 2 kActive, slot 0 0 kEmpty] 2"

text \<open>The table constructed for the request 5, and the same after \<open>insert(1, 2)\<close>.\<close>

definition empty_table :: "(nat, nat) hash_table" where
  "empty_table = table_of [slot 0 0 kEmpty, slot 0 0 kEmpty, slot 0 0 kEmpty,
                           slot 0 0 kEmpty, slot 0 0 kEmpty] 0"

definition misplaced_table :: "(nat, nat) hash_table" where
  "misplaced_table = table_of [slot 0 0 kEmpty, slot 0 0 kEmpty, slot 1 2 kActive,
                               slot 0 0 kEmpty, slot 0 0 kEmpty] 1"


section \<open>Lemmas\<close>

subsection \<open>The loop of \<open>find_position\<close>\<close>

lemma find_position_loop_stops:
  "find_position_loop t v cp off = Inr p \<Longrightarrow>
     p < length (array t) \<and> (type (array t ! p) = kEmpty \<or> element (array t ! p) = v)"
proof (induction t v cp off rule: find_position_loop.induct)
  case (1 t v cp off)
  show ?case
  proof (cases "length (array t) \<le> cp")
    case True
    with "1.prems" show ?thesis by (simp add: find_position_loop.simps)
  next
    case False
    show ?thesis
    proof (cases "type (array t ! cp) \<noteq> kEmpty \<and> element (array t ! cp) \<noteq> v")
      case True
      with False "1.prems" "1.IH" show ?thesis
        by (simp add: find_position_loop.simps [of t v cp off] Let_def)
    next
      case stop: False
      with False "1.prems" have "p = cp"
        by (auto simp: find_position_loop.simps [of t v cp off])
      with False stop show ?thesis by auto
    qed
  qed
qed

lemma find_position_in_range:
  "find_position P t v = Inr p \<Longrightarrow> p < length (array t)"
  by (auto simp: find_position_def dest: find_position_loop_stops split: sum.splits)

lemma find_position_stops:
  "find_position P t v = Inr p \<Longrightarrow> type (array t ! p) = kEmpty \<or> element (array t ! p) = v"
  by (auto simp: find_position_def dest: find_position_loop_stops split: sum.splits)

lemma find_position_loop_mark_deleted:
  "p < length (array t) \<Longrightarrow> element (array t ! p) = v \<Longrightarrow>
     find_position_loop (t\<lparr>array := (array t)[p := (array t ! p)\<lparr>type := kDeleted\<rparr>]\<rparr>) v cp off
       = find_position_loop t v cp off"
proof (induction t v cp off rule: find_position_loop.induct)
  case (1 t v cp off)
  let ?t' = "t\<lparr>array := (array t)[p := (array t ! p)\<lparr>type := kDeleted\<rparr>]\<rparr>"
  show ?case
  proof (cases "length (array t) \<le> cp")
    case True
    then show ?thesis
      by (simp add: find_position_loop.simps [of t v cp off] find_position_loop.simps [of ?t' v cp off])
  next
    case False
    show ?thesis
    proof (cases "type (array t ! cp) \<noteq> kEmpty \<and> element (array t ! cp) \<noteq> v")
      case True
      with "1.prems" have "cp \<noteq> p" by auto
      with True False "1.prems" "1.IH" show ?thesis
        by (auto simp: find_position_loop.simps [of t v cp off] find_position_loop.simps [of ?t' v cp off] Let_def
                 split: if_splits)
    next
      case stop: False
      have "find_position_loop t v cp off = Inr cp"
        using False stop by (subst find_position_loop.simps) auto
      moreover have "find_position_loop ?t' v cp off = Inr cp"
        using False stop "1.prems"
        by (subst find_position_loop.simps) (auto simp: nth_list_update)
      ultimately show ?thesis by simp
    qed
  qed
qed

lemma find_position_loop_stop_here:
  "i < length (array t) \<Longrightarrow> \<not> keeps_probing t v i \<Longrightarrow> find_position_loop t v i off = Inr i"
  by (subst find_position_loop.simps) (auto simp: keeps_probing_def)

lemma find_position_loop_skip:
  "\<forall>j<k. probe (length (array t)) h j < length (array t)
           \<and> keeps_probing t v (probe (length (array t)) h j) \<Longrightarrow>
   find_position_loop t v h 1 = find_position_loop t v (probe (length (array t)) h k) (2 * k + 1)"
proof (induction k)
  case 0
  then show ?case by simp
next
  case (Suc k)
  then have ih: "find_position_loop t v h 1
      = find_position_loop t v (probe (length (array t)) h k) (2 * k + 1)"
    by simp
  from Suc.prems have here: "probe (length (array t)) h k < length (array t)"
    "keeps_probing t v (probe (length (array t)) h k)" by simp_all
  have "find_position_loop t v (probe (length (array t)) h k) (2 * k + 1)
      = find_position_loop t v (probe (length (array t)) h (Suc k)) (2 * Suc k + 1)"
    using here
    by (subst find_position_loop.simps) (simp add: keeps_probing_def Let_def)
  with ih show ?case by simp
qed

lemma probe_quadratic:
  "h < n \<Longrightarrow> 2 * k \<le> n + 1 \<Longrightarrow> probe n h k = (h + k * k) mod n"
proof (induction k)
  case 0
  then show ?case by simp
next
  case (Suc k)
  then have ih: "probe n h k = (h + k * k) mod n" by simp
  have lt: "(h + k * k) mod n < n" using Suc.prems by simp
  have off: "2 * k + 1 \<le> n" using Suc.prems by simp
  let ?moved = "(h + k * k) mod n + (2 * k + 1)"
  have "h + Suc k * Suc k = (h + k * k) + (2 * k + 1)" by simp
  then have "(h + Suc k * Suc k) mod n = ((h + k * k) + (2 * k + 1)) mod n"
    by (rule arg_cong)
  also have "\<dots> = ?moved mod n" by (rule mod_add_left_eq [symmetric])
  also have "\<dots> = (if n \<le> ?moved then ?moved - n else ?moved)"
  proof (cases "n \<le> ?moved")
    case True
    have "?moved - n < n" using lt off by linarith
    then have "(?moved - n) mod n = ?moved - n" by simp
    with True show ?thesis by (simp add: le_mod_geq)
  next
    case False
    then show ?thesis by simp
  qed
  finally show ?case by (simp add: ih Let_def)
qed

lemma find_position_loop_first_stop:
  "cp = probe (length (array t)) h k \<Longrightarrow> off = 2 * k + 1
   \<Longrightarrow> find_position_loop t v cp off = Inr p
   \<Longrightarrow> \<exists>k'\<ge>k. p = probe (length (array t)) h k'
          \<and> (\<forall>j. k \<le> j \<and> j < k' \<longrightarrow> keeps_probing t v (probe (length (array t)) h j))"
proof (induction t v cp off arbitrary: k rule: find_position_loop.induct)
  case (1 t v cp off)
  let ?n = "length (array t)"
  show ?case
  proof (cases "?n \<le> cp")
    case True
    with "1.prems"(3) show ?thesis by (simp add: find_position_loop.simps [of t v cp off])
  next
    case False
    show ?thesis
    proof (cases "type (array t ! cp) \<noteq> kEmpty \<and> element (array t ! cp) \<noteq> v")
      case True
      let ?cp' = "if ?n \<le> cp + off then cp + off - ?n else cp + off"
      have next_cp: "?cp' = probe ?n h (Suc k)"
        using "1.prems"(1,2) by (simp add: Let_def)
      have "find_position_loop t v ?cp' (off + 2) = Inr p"
        using "1.prems"(3) True False
        by (simp add: find_position_loop.simps [of t v cp off] Let_def)
      with "1.IH" [OF False True refl next_cp] "1.prems"(2)
      obtain k' where k': "Suc k \<le> k'" "p = probe ?n h k'"
        "\<forall>j. Suc k \<le> j \<and> j < k' \<longrightarrow> keeps_probing t v (probe ?n h j)"
        by auto
      have "keeps_probing t v (probe ?n h k)"
        using True "1.prems"(1) by (simp add: keeps_probing_def)
      with k'(3) have "\<forall>j. k \<le> j \<and> j < k' \<longrightarrow> keeps_probing t v (probe ?n h j)"
        by (metis Suc_leI le_neq_implies_less)
      with k'(1,2) show ?thesis by (intro exI [of _ k']) simp
    next
      case stop: False
      have "find_position_loop t v cp off = Inr cp"
        using False stop by (subst find_position_loop.simps) auto
      with "1.prems"(3) have "p = cp" by simp
      with "1.prems"(1) show ?thesis by (intro exI [of _ k]) auto
    qed
  qed
qed

text \<open>
  In any table, while the offset does not exceed the length, the loop is at the
  quadratic position.
\<close>

lemma probe_index_while_offset_fits:
  assumes "hash P t v = Inr h"
    and "2 * k \<le> length (array t) + 1"
    and "\<forall>j<k. keeps_probing t v (probe (length (array t)) h j)"
  shows "probe (length (array t)) h k = (h + k * k) mod length (array t)
         \<and> (h + k * k) mod length (array t) < length (array t)
         \<and> find_position P t v
             = find_position_loop t v ((h + k * k) mod length (array t)) (2 * k + 1)"
proof -
  let ?n = "length (array t)"
  from assms(1) have pos: "0 < ?n" and h: "h < ?n"
    by (auto simp: hash_def split: if_splits)
  have quad: "probe ?n h j = (h + j * j) mod ?n" if "j \<le> k" for j
    using that assms(2) h by (intro probe_quadratic) linarith+
  have "find_position_loop t v h 1 = find_position_loop t v (probe ?n h k) (2 * k + 1)"
    using assms(3) quad pos by (intro find_position_loop_skip) simp
  with assms(1) quad [of k] pos show ?thesis
    by (simp add: find_position_def)
qed

subsection \<open>Primes and squares\<close>

lemma prime_nat_dvd: "prime_nat p \<Longrightarrow> d dvd p \<Longrightarrow> d = 1 \<or> d = p"
proof -
  assume p: "prime_nat p" and d: "d dvd p"
  then have "0 < p" by (simp add: prime_nat_def)
  with d have "d \<le> p" "d \<noteq> 0" by (auto dest: dvd_imp_le)
  show ?thesis
  proof (rule ccontr)
    assume "\<not> (d = 1 \<or> d = p)"
    with \<open>d \<le> p\<close> \<open>d \<noteq> 0\<close> have "d \<in> {2..<p}" by auto
    with p d show False by (auto simp: prime_nat_def)
  qed
qed

lemma prime_nat_dvd_mult:
  assumes "prime_nat p" "p dvd a * b"
  shows "p dvd a \<or> p dvd b"
proof (cases "p dvd a")
  case True
  then show ?thesis by simp
next
  case False
  have "gcd p a dvd p" by simp
  with assms(1) have "gcd p a = 1 \<or> gcd p a = p" by (rule prime_nat_dvd)
  moreover have "gcd p a \<noteq> p"
  proof
    assume "gcd p a = p"
    then have "p dvd a" by (metis gcd_dvd2)
    with False show False by simp
  qed
  ultimately have "coprime p a" by (simp add: coprime_iff_gcd_eq_1)
  with assms(2) show ?thesis by (simp add: coprime_dvd_mult_right_iff)
qed

lemma squares_distinct:
  assumes p: "prime_nat n" and ij: "i < j" "j \<le> n div 2"
  shows "(h + i * i) mod n \<noteq> (h + j * j) mod n"
proof
  assume eq: "(h + i * i) mod n = (h + j * j) mod n"
  have le: "h + i * i \<le> h + j * j" using ij(1) by (simp add: mult_le_mono less_imp_le)
  from eq have "(h + j * j) mod n = (h + i * i) mod n" by simp
  with le have "n dvd (h + j * j) - (h + i * i)"
    by (simp add: mod_eq_dvd_iff_nat)
  moreover have "(h + j * j) - (h + i * i) = (j - i) * (j + i)"
    using ij(1) by (simp add: algebra_simps diff_mult_distrib) 
  ultimately have "n dvd (j - i) * (j + i)" by simp
  with p have "n dvd (j - i) \<or> n dvd (j + i)" by (rule prime_nat_dvd_mult)
  moreover have "0 < j - i" "j - i < n" "0 < j + i" "j + i < n"
    using ij by auto
  ultimately show False by (auto dest: dvd_imp_le)
qed

lemma some_probe_stops:
  assumes p: "prime_nat (length (array t))"
    and occ: "occupied t \<le> length (array t) div 2"
  shows "\<exists>k \<le> length (array t) div 2. \<not> keeps_probing t v ((h + k * k) mod length (array t))"
proof (rule ccontr)
  let ?n = "length (array t)"
  let ?m = "?n div 2"
  let ?idx = "\<lambda>k. (h + k * k) mod ?n"
  assume "\<not> ?thesis"
  then have all: "\<forall>k \<le> ?m. keeps_probing t v (?idx k)" by simp
  have pos: "0 < ?n" using p by (auto simp: prime_nat_def)
  have inj: "inj_on ?idx {..?m}"
  proof (rule inj_onI)
    fix i j assume "i \<in> {..?m}" "j \<in> {..?m}" and eq: "?idx i = ?idx j"
    then have le: "i \<le> ?m" "j \<le> ?m" by simp_all
    show "i = j"
    proof (rule ccontr)
      assume "i \<noteq> j"
      then consider "i < j" | "j < i" by linarith
      then show False
      proof cases
        case 1
        from squares_distinct [OF p 1 le(2), of h] eq show False by simp
      next
        case 2
        from squares_distinct [OF p 2 le(1), of h] eq show False by simp
      qed
    qed
  qed
  have sub: "?idx ` {..?m} \<subseteq> {i. i < ?n \<and> type (array t ! i) \<noteq> kEmpty}"
    using all pos by (auto simp: keeps_probing_def)
  have "card (?idx ` {..?m}) = ?m + 1"
    using inj by (simp add: card_image)
  moreover have "card (?idx ` {..?m}) \<le> card {i. i < ?n \<and> type (array t ! i) \<noteq> kEmpty}"
    by (rule card_mono [OF _ sub]) simp
  moreover have "card {i. i < ?n \<and> type (array t ! i) \<noteq> kEmpty} = occupied t"
    by (simp add: occupied_def length_filter_conv_card)
  ultimately show False using occ by simp
qed

subsection \<open>\<open>is_prime\<close> decides primality below the overflow\<close>

lemma smod_nonneg: "0 \<le> a \<Longrightarrow> 0 < b \<Longrightarrow> a smod b = a mod (b::int)"
  by (cases "a = 0") (simp_all add: smod_int_alt_def sgn_if)

lemma prime_nat_int: "1 \<le> m \<Longrightarrow> prime_nat (nat m) = (1 < m \<and> no_divisor_below m m)"
proof -
  assume m: "1 \<le> m"
  have "(\<forall>d\<in>{2..<nat m}. \<not> d dvd nat m) = no_divisor_below m m"
  proof
    assume l: "\<forall>d\<in>{2..<nat m}. \<not> d dvd nat m"
    show "no_divisor_below m m"
      unfolding no_divisor_below_def
    proof (intro allI impI)
      fix d :: int assume d: "2 \<le> d \<and> d < m"
      then have "nat d \<in> {2..<nat m}" by auto
      with l have "\<not> nat d dvd nat m" by blast
      with d m show "\<not> d dvd m" using int_dvd_int_iff [of "nat d" "nat m"] by simp
    qed
  next
    assume r: "no_divisor_below m m"
    show "\<forall>d\<in>{2..<nat m}. \<not> d dvd nat m"
    proof
      fix d assume "d \<in> {2..<nat m}"
      then have "2 \<le> int d \<and> int d < m" by auto
      with r have "\<not> int d dvd m" by (simp add: no_divisor_below_def)
      with m show "\<not> d dvd nat m" using int_dvd_int_iff [of d "nat m"] by simp
    qed
  qed
  with m show ?thesis by (auto simp: prime_nat_def)
qed

lemma is_prime_loop_correct:
  "3 \<le> c \<Longrightarrow> odd c \<Longrightarrow> c \<le> 46340 \<Longrightarrow> odd m \<Longrightarrow> 1 \<le> m \<Longrightarrow> m < 46339 * 46339
   \<Longrightarrow> no_divisor_below m c
   \<Longrightarrow> is_prime_loop m c = Inr (no_divisor_below m m)"
proof (induction m c rule: is_prime_loop.induct)
  case (1 m c)
  have "c * c \<le> 46340 * 46340" using "1.prems"(1,3) by (intro mult_mono) simp_all
  then have nov: "\<not> c * c > INT_MAX" by (simp add: INT_MAX_def)
  show ?case
  proof (cases "c * c \<le> m")
    case True
    have "c * 3 \<le> c * c" using "1.prems"(1) by (intro mult_left_mono) simp_all
    with True "1.prems"(1) have cm: "c < m" by linarith
    show ?thesis
    proof (cases "m smod c = 0")
      case zero: True
      with "1.prems" have "c dvd m" by (simp add: smod_nonneg dvd_eq_mod_eq_0)
      with cm "1.prems"(1) have "\<not> no_divisor_below m m"
        unfolding no_divisor_below_def by (intro notI) (drule spec [of _ c], simp)
      with nov True zero show ?thesis
        by (subst is_prime_loop.simps) simp
    next
      case nz: False
      with "1.prems" have ndvd: "\<not> c dvd m" by (simp add: smod_nonneg dvd_eq_mod_eq_0)
      have small: "c + 2 \<le> 46340"
      proof (rule ccontr)
        assume "\<not> c + 2 \<le> 46340"
        then have "46339 \<le> c" by simp
        then have "46339 * 46339 \<le> c * c" by (intro mult_mono) simp_all
        with True "1.prems"(6) show False by simp
      qed
      have nd: "no_divisor_below m (c + 2)"
        unfolding no_divisor_below_def
      proof (intro allI impI)
        fix d assume d: "2 \<le> d \<and> d < c + 2"
        then consider "d < c" | "d = c" | "d = c + 1" by linarith
        then show "\<not> d dvd m"
        proof cases
          case 1
          with d "1.prems"(7) show ?thesis by (simp add: no_divisor_below_def)
        next
          case 2
          with ndvd show ?thesis by simp
        next
          case 3
          then have "even d" using "1.prems"(2) by simp
          then show ?thesis using "1.prems"(4) by (meson dvd_trans)
        qed
      qed
      have "is_prime_loop m (c + 2) = Inr (no_divisor_below m m)"
        using "1.prems" small nd nov True nz by (intro "1.IH") simp_all
      with nov True nz show ?thesis
        by (subst is_prime_loop.simps) simp
    qed
  next
    case False
    have "no_divisor_below m m"
      unfolding no_divisor_below_def
    proof (intro allI impI notI)
      fix d assume d: "2 \<le> d \<and> d < m" and dv: "d dvd m"
      then obtain e where e: "m = d * e" by (auto simp: dvd_def)
      have epos: "2 \<le> e"
      proof (rule ccontr)
        assume "\<not> 2 \<le> e"
        then have "e \<le> 1" by simp
        then have "d * e \<le> d * 1" using d by (intro mult_left_mono) simp_all
        with e d show False by simp
      qed
      show False
      proof (cases "d < c")
        case True
        with d dv "1.prems"(7) show False by (simp add: no_divisor_below_def)
      next
        case dc: False
        have "e < c"
        proof (rule ccontr)
          assume "\<not> e < c"
          then have "c * c \<le> d * e" using dc "1.prems"(1) by (intro mult_mono) simp_all
          with e False show False by simp
        qed
        moreover have "e dvd m" using e by simp
        ultimately show False using epos "1.prems"(7) by (simp add: no_divisor_below_def)
      qed
    qed
    with nov False show ?thesis
      by (subst is_prime_loop.simps) simp
  qed
qed

lemma is_prime_correct:
  assumes "1 \<le> m" "m < 46339 * 46339"
  shows "is_prime m = Inr (prime_nat (nat m))"
proof -
  consider "m = 1" | "m = 2" | "m = 3" | "3 < m" "even m" | "3 < m" "odd m"
    using assms(1) by fastforce
  then show ?thesis
  proof cases
    case 1
    then show ?thesis by (simp add: is_prime_def prime_nat_def)
  next
    case 2
    then show ?thesis by (simp add: is_prime_def prime_nat_def)
  next
    case 3
    have "prime_nat 3" by code_simp
    with 3 show ?thesis by (simp add: is_prime_def)
  next
    case 4
    then have "\<not> no_divisor_below m m"
      unfolding no_divisor_below_def by (intro notI) (drule spec [of _ 2], simp)
    with 4 assms show ?thesis
      by (simp add: is_prime_def prime_nat_int smod_nonneg even_iff_mod_2_eq_zero [symmetric])
  next
    case 5
    have "no_divisor_below m 3"
      unfolding no_divisor_below_def
    proof (intro allI impI)
      fix d :: int assume "2 \<le> d \<and> d < 3"
      then have "d = 2" by simp
      with 5 show "\<not> d dvd m" by simp
    qed
    with 5 assms have "is_prime_loop m 3 = Inr (no_divisor_below m m)"
      by (intro is_prime_loop_correct) simp_all
    with 5 assms show ?thesis
      by (simp add: is_prime_def prime_nat_int smod_nonneg even_iff_mod_2_eq_zero [symmetric])
  qed
qed

text \<open>Once the counter is 46341 its square no longer fits \<open>int\<close>.\<close>

lemma is_prime_loop_overflow: "is_prime_loop number 46341 = Inl Overflow"
  by (subst is_prime_loop.simps) (simp add: INT_MAX_def)

lemma next_prime_loop_finds:
  "odd m \<Longrightarrow> odd p \<Longrightarrow> 1 \<le> m \<Longrightarrow> m \<le> p \<Longrightarrow> p < 46339 * 46339 \<Longrightarrow> prime_nat (nat p)
   \<Longrightarrow> \<forall>q. m \<le> q \<and> q < p \<longrightarrow> \<not> prime_nat (nat q)
   \<Longrightarrow> next_prime_loop m = Inr p"
proof (induction m rule: next_prime_loop.induct)
  case (1 m)
  have ip: "is_prime m = Inr (prime_nat (nat m))"
    using "1.prems" by (intro is_prime_correct) simp_all
  show ?case
  proof (cases "m = p")
    case True
    with ip "1.prems" show ?thesis by (subst next_prime_loop.simps) simp
  next
    case False
    with "1.prems" have lt: "m < p" by simp
    with "1.prems" have np: "\<not> prime_nat (nat m)" by simp
    have "m + 1 \<noteq> p" using "1.prems"(1,2) by auto
    with lt have le: "m + 2 \<le> p" by simp
    have small: "\<not> m > INT_MAX - 2" using lt "1.prems"(5) by (simp add: INT_MAX_def)
    have "next_prime_loop (m + 2) = Inr p"
      using ip np small "1.prems" le by (intro "1.IH") auto
    with ip np small show ?thesis by (subst next_prime_loop.simps) simp
  qed
qed

lemma next_prime_loop_ge: "next_prime_loop m = Inr p \<Longrightarrow> m \<le> p"
proof (induction m rule: next_prime_loop.induct)
  case (1 m)
  from "1.prems" show ?case
    by (subst (asm) next_prime_loop.simps)
       (auto split: sum.splits bool.splits if_splits dest: "1.IH")
qed

lemma next_prime_ge: "next_prime n = Inr p \<Longrightarrow> n \<le> p"
  by (auto simp: next_prime_def dest!: next_prime_loop_ge split: if_splits)

subsection \<open>What \<open>next_prime\<close> returns\<close>








subsection \<open>The tables the operations produce\<close>

lemma length_resize: "length (resize P xs n) = n"
  by (simp add: resize_def)

lemma insert_entry_with:
  "insert_entry P insert_element v k t = insert_with P (rehash P insert_element) v k t"
  by (simp add: insert_entry_def insert_with_def)


(* invariants *)

lemma occupied_emptied [simp]:
  "length (filter (\<lambda>e. type e \<noteq> kEmpty) (map (\<lambda>e. e\<lparr>type := kEmpty\<rparr>) xs)) = 0"
  by (induction xs) simp_all

lemma filter_update_le_Suc:
  "length (filter Q (xs[p := y])) \<le> Suc (length (filter Q xs))"
proof (induction xs arbitrary: p)
  case Nil
  then show ?case by simp
next
  case (Cons x xs)
  then show ?case by (cases p) (auto simp: le_SucI)
qed

lemma filter_update_le:
  "p < length xs \<Longrightarrow> Q (xs ! p) \<Longrightarrow> length (filter Q (xs[p := y])) \<le> length (filter Q xs)"
proof (induction xs arbitrary: p)
  case Nil
  then show ?case by simp
next
  case (Cons x xs)
  then show ?case by (cases p) (auto simp: le_SucI)
qed









subsection \<open>Two nested rehashes are the most\<close>

lemma actives_simps [simp]:
  "actives [] = 0"
  "actives (e # es) = (if type e = kActive then Suc (actives es) else actives es)"
  by (simp_all add: actives_def)

lemma actives_emptied [simp]: "actives (map (\<lambda>e. e\<lparr>type := kEmpty\<rparr>) xs) = 0"
  by (induction xs) simp_all

lemma actives_update_le_Suc: "actives (xs[p := y]) \<le> Suc (actives xs)"
  unfolding actives_def by (rule filter_update_le_Suc)

lemma actives_update_same:
  "p < length xs \<Longrightarrow> type (xs ! p) = kActive \<Longrightarrow> actives (xs[p := y]) \<le> actives xs"
  unfolding actives_def by (rule filter_update_le)

lemma actives_le_occupied: "actives (array t) \<le> occupied t"
proof -
  have "actives xs \<le> length (filter (\<lambda>e. type e \<noteq> kEmpty) xs)" for xs :: "('a, 'b) entry list"
    by (induction xs) auto
  then show ?thesis by (simp add: occupied_def)
qed

lemma find_position_loop_error: "find_position_loop t v cp off = Inl e \<Longrightarrow> e = OutOfBounds"
proof (induction t v cp off rule: find_position_loop.induct)
  case (1 t v cp off)
  show ?case
  proof (cases "length (array t) \<le> cp")
    case True
    with "1.prems" show ?thesis by (simp add: find_position_loop.simps [of t v cp off])
  next
    case False
    show ?thesis
    proof (cases "type (array t ! cp) \<noteq> kEmpty \<and> element (array t ! cp) \<noteq> v")
      case True
      with False "1.prems" "1.IH" show ?thesis
        by (simp add: find_position_loop.simps [of t v cp off] Let_def)
    next
      case stop: False
      with False "1.prems" show ?thesis
        by (auto simp: find_position_loop.simps [of t v cp off])
    qed
  qed
qed

lemma find_position_not_depth: "find_position P t v \<noteq> Inl DepthExceeded"
  by (auto simp: find_position_def hash_def split: sum.splits if_splits dest: find_position_loop_error)

lemma is_prime_loop_error: "is_prime_loop m c = Inl e \<Longrightarrow> e = Overflow"
proof (induction m c rule: is_prime_loop.induct)
  case (1 m c)
  from "1.prems" show ?case
    by (subst (asm) is_prime_loop.simps) (auto split: if_splits dest: "1.IH")
qed

lemma is_prime_error: "is_prime m = Inl e \<Longrightarrow> e = Overflow"
  by (auto simp: is_prime_def split: if_splits dest: is_prime_loop_error)

lemma next_prime_loop_error: "next_prime_loop m = Inl e \<Longrightarrow> e = Overflow"
proof (induction m rule: next_prime_loop.induct)
  case (1 m)
  show ?case
  proof (cases "is_prime m")
    case (Inl e')
    with "1.prems" have "e = e'" by (subst (asm) next_prime_loop.simps) simp
    with Inl show ?thesis by (auto dest: is_prime_error)
  next
    case (Inr b)
    show ?thesis
    proof (cases b)
      case True
      with Inr "1.prems" show ?thesis by (subst (asm) next_prime_loop.simps) simp
    next
      case False
      show ?thesis
      proof (cases "m > INT_MAX - 2")
        case True
        with Inr False "1.prems" show ?thesis by (subst (asm) next_prime_loop.simps) simp
      next
        case small: False
        with Inr False "1.prems" have "next_prime_loop (m + 2) = Inl e"
          by (subst (asm) next_prime_loop.simps) simp
        with "1.IH" Inr False small show ?thesis by simp
      qed
    qed
  qed
qed

lemma next_prime_not_depth: "next_prime n \<noteq> Inl DepthExceeded"
  by (auto simp: next_prime_def dest: next_prime_loop_error)

text \<open>What one call of \<open>insert\<close> does to the length, the count and the number of Active entries.\<close>

lemma insert_with_cases:
  assumes "insert_with P rehash_call v k s = r"
  shows "(\<exists>e. r = Inl e \<and> e \<noteq> DepthExceeded)
         \<or> (\<exists>b s'. r = Inr (b, s') \<and> length (array s') = length (array s)
                \<and> current_size s' = current_size s \<and> actives (array s') \<le> actives (array s))
         \<or> (\<exists>w. grows_by s w \<and> r = Inr (True, w))
         \<or> (\<exists>w. grows_by s w \<and> current_size w > length (array w) div 2
                \<and> r = (case rehash_call w of Inl e \<Rightarrow> Inl e | Inr s' \<Rightarrow> Inr (True, s')))"
proof (cases "find_position P s (key_to_element P k)")
  case (Inl e)
  with assms find_position_not_depth [of P s "key_to_element P k"] show ?thesis
    by (auto simp: insert_with_def)
next
  case (Inr p)
  then have inr: "p < length (array s)" by (rule find_position_in_range)
  show ?thesis
  proof (cases "is_active s p")
    case True
    then have "type (array s ! p) = kActive" by (simp add: is_active_def)
    with inr have "actives ((array s)[p := (array s ! p)\<lparr>element := v\<rparr>]) \<le> actives (array s)"
      by (rule actives_update_same)
    with assms Inr True show ?thesis
      by (auto simp: insert_with_def)
  next
    case False
    let ?w = "s\<lparr>array := (array s)[p := (array s ! p)\<lparr>element := v, key := k, type := kActive\<rparr>],
                current_size := current_size s + 1\<rparr>"
    have g: "grows_by s ?w"
      using actives_update_le_Suc [of "array s" p] by (simp add: grows_by_def)
    show ?thesis
    proof (cases "current_size ?w > length (array ?w) div 2")
      case True
      with assms Inr False have "r = (case rehash_call ?w of Inl e \<Rightarrow> Inl e
                                        | Inr s' \<Rightarrow> Inr (True, s'))"
        by (auto simp: insert_with_def Let_def)
      with g True show ?thesis by blast
    next
      case within: False
      with assms Inr False have "r = Inr (True, ?w)"
        by (auto simp: insert_with_def Let_def)
      with g show ?thesis by blast
    qed
  qed
qed

lemma insert_pair_cases:
  assumes "insert_pair P rehash_call v k s = r"
  shows "(\<exists>e. r = Inl e \<and> e \<noteq> DepthExceeded)
         \<or> (\<exists>s'. r = Inr s' \<and> length (array s') = length (array s)
                \<and> current_size s' = current_size s \<and> actives (array s') \<le> actives (array s))
         \<or> (\<exists>w. grows_by s w \<and> r = Inr w)
         \<or> (\<exists>w. grows_by s w \<and> current_size w > length (array w) div 2 \<and> r = rehash_call w)"
  using insert_with_cases [OF refl, of P rehash_call v k s] assms
  by (fastforce simp: insert_pair_def split: sum.splits)

text \<open>A loop of re-insertions that stays within the load bound calls no rehash.\<close>

lemma reinsert_pairs_within:
  "current_size s + actives es \<le> length (array s) div 2
   \<Longrightarrow> reinsert_pairs (insert_pair P rehash_call) es s = r
   \<Longrightarrow> r \<noteq> Inl DepthExceeded
       \<and> (\<forall>t'. r = Inr t' \<longrightarrow> length (array t') = length (array s)
              \<and> current_size t' \<le> current_size s + actives es
              \<and> actives (array t') \<le> actives (array s) + actives es)"
proof (induction es arbitrary: s)
  case Nil
  then show ?case by auto
next
  case (Cons e es)
  show ?case
  proof (cases "type e = kActive")
    case False
    with Cons.prems have "reinsert_pairs (insert_pair P rehash_call) es s = r"
      "current_size s + actives es \<le> length (array s) div 2" by simp_all
    from Cons.IH [OF this(2,1)] False show ?thesis by simp
  next
    case True
    let ?r0 = "insert_pair P rehash_call (element e) (key e) s"
    from Cons.prems(1) True have room: "current_size s + 1 + actives es \<le> length (array s) div 2"
      by simp
    from insert_pair_cases [OF refl, of P rehash_call "element e" "key e" s]
    consider (err) err where "?r0 = Inl err" "err \<noteq> DepthExceeded"
      | (same) s' where "?r0 = Inr s'" "length (array s') = length (array s)"
          "current_size s' = current_size s" "actives (array s') \<le> actives (array s)"
      | (grow) w where "grows_by s w" "?r0 = Inr w"
      | (over) w where "grows_by s w" "current_size w > length (array w) div 2"
      by blast
    then show ?thesis
    proof cases
      case err
      with True Cons.prems(2) show ?thesis by auto
    next
      case same
      with True Cons.prems(2) have rest: "reinsert_pairs (insert_pair P rehash_call) es s' = r"
        by simp
      have "current_size s' + actives es \<le> length (array s') div 2" using same room by simp
      from Cons.IH [OF this rest] same True show ?thesis by auto
    next
      case grow
      with True Cons.prems(2) have rest: "reinsert_pairs (insert_pair P rehash_call) es w = r"
        by simp
      have "current_size w + actives es \<le> length (array w) div 2"
        using grow(1) room by (simp add: grows_by_def)
      from Cons.IH [OF this rest] grow(1) True show ?thesis by (auto simp: grows_by_def)
    next
      case over
      with room show ?thesis by (simp add: grows_by_def)
    qed
  qed
qed

lemma rehash_pairs_split:
  assumes "rehash_pairs P reinsert w = r"
  shows "(\<exists>e. r = Inl e \<and> e \<noteq> DepthExceeded)
         \<or> (\<exists>n. 2 * length (array w) \<le> n
               \<and> r = reinsert_pairs reinsert (array w)
                       (w\<lparr>array := map (\<lambda>e. e\<lparr>type := kEmpty\<rparr>) (resize P (array w) n)\<rparr>))"
proof (cases "int_of_size_t (2 * length (array w))")
  case (Inl e)
  then have "e = Overflow" by (auto simp: int_of_size_t_def split: if_splits)
  with Inl assms show ?thesis by (auto simp: rehash_pairs_def)
next
  case (Inr doubled)
  then have d: "doubled = int (2 * length (array w))"
    by (auto simp: int_of_size_t_def split: if_splits)
  show ?thesis
  proof (cases "next_prime doubled")
    case (Inl e)
    with next_prime_not_depth [of doubled] have "e \<noteq> DepthExceeded" by auto
    with Inl Inr assms show ?thesis by (auto simp: rehash_pairs_def)
  next
    case np: (Inr n)
    show ?thesis
    proof (cases "n < 0")
      case True
      with np Inr assms show ?thesis by (auto simp: rehash_pairs_def)
    next
      case False
      from next_prime_ge [OF np] d have "2 * length (array w) \<le> nat n" by simp
      moreover from False np Inr assms
      have "r = reinsert_pairs reinsert (array w)
                  (w\<lparr>array := map (\<lambda>e. e\<lparr>type := kEmpty\<rparr>) (resize P (array w) (nat n))\<rparr>)"
        by (auto simp: rehash_pairs_def Let_def)
      ultimately show ?thesis by blast
    qed
  qed
qed

lemma rehash_pairs_fits: "rehash_fits (rehash_pairs P (insert_pair P rehash_call))"
  unfolding rehash_fits_def
proof (intro allI impI)
  fix w :: "('a, 'b) hash_table"
  assume fit: "current_size w + actives (array w) \<le> length (array w)"
  let ?r = "rehash_pairs P (insert_pair P rehash_call) w"
  from rehash_pairs_split [OF refl, of P "insert_pair P rehash_call" w]
  consider (err) e where "?r = Inl e" "e \<noteq> DepthExceeded"
    | (loop) n where "2 * length (array w) \<le> n"
        "?r = reinsert_pairs (insert_pair P rehash_call) (array w)
                (w\<lparr>array := map (\<lambda>e. e\<lparr>type := kEmpty\<rparr>) (resize P (array w) n)\<rparr>)"
    by blast
  then show "?r \<noteq> Inl DepthExceeded
         \<and> (\<forall>t'. ?r = Inr t' \<longrightarrow> 2 * length (array w) \<le> length (array t')
               \<and> current_size t' \<le> current_size w + actives (array w)
               \<and> actives (array t') \<le> actives (array w))"
  proof cases
    case err
    then show ?thesis by auto
  next
    case loop
    let ?s = "w\<lparr>array := map (\<lambda>e. e\<lparr>type := kEmpty\<rparr>) (resize P (array w) n)\<rparr>"
    have "current_size ?s + actives (array w) \<le> length (array ?s) div 2"
      using fit loop(1) by (simp add: length_resize)
    from reinsert_pairs_within [OF this loop(2) [symmetric]] loop(1) show ?thesis
      by (auto simp: length_resize)
  qed
qed

text \<open>A loop of re-insertions whose rehashes call none themselves.\<close>

lemma reinsert_pairs_nested:
  assumes fits: "rehash_fits rehash_call"
  shows "current_size s + actives (array s) + 2 * actives es \<le> length (array s)
         \<Longrightarrow> reinsert_pairs (insert_pair P rehash_call) es s \<noteq> Inl DepthExceeded"
proof (induction es arbitrary: s)
  case Nil
  then show ?case by simp
next
  case (Cons e es)
  show ?case
  proof (cases "type e = kActive")
    case False
    with Cons.prems Cons.IH [of s] show ?thesis by simp
  next
    case True
    let ?r0 = "insert_pair P rehash_call (element e) (key e) s"
    from Cons.prems True
    have J: "current_size s + actives (array s) + 2 * actives es + 2 \<le> length (array s)"
      by simp
    from insert_pair_cases [OF refl, of P rehash_call "element e" "key e" s]
    consider (err) err where "?r0 = Inl err" "err \<noteq> DepthExceeded"
      | (same) s' where "?r0 = Inr s'" "length (array s') = length (array s)"
          "current_size s' = current_size s" "actives (array s') \<le> actives (array s)"
      | (grow) w where "grows_by s w" "?r0 = Inr w"
      | (over) w where "grows_by s w" "?r0 = rehash_call w"
      by blast
    then show ?thesis
    proof cases
      case err
      with True show ?thesis by auto
    next
      case same
      have "current_size s' + actives (array s') + 2 * actives es \<le> length (array s')"
        using same J by simp
      from Cons.IH [OF this] same(1) True show ?thesis by simp
    next
      case grow
      have "current_size w + actives (array w) + 2 * actives es \<le> length (array w)"
        using grow(1) J by (simp add: grows_by_def)
      from Cons.IH [OF this] grow(2) True show ?thesis by simp
    next
      case over
      have fit: "current_size w + actives (array w) \<le> length (array w)"
        using over(1) J by (simp add: grows_by_def)
      with fits have nd: "rehash_call w \<noteq> Inl DepthExceeded"
        and post: "\<And>t'. rehash_call w = Inr t' \<Longrightarrow> 2 * length (array w) \<le> length (array t')
               \<and> current_size t' \<le> current_size w + actives (array w)
               \<and> actives (array t') \<le> actives (array w)"
        by (auto simp: rehash_fits_def)
      show ?thesis
      proof (cases "rehash_call w")
        case (Inl err)
        with nd over(2) True show ?thesis by auto
      next
        case (Inr s')
        from post [OF Inr] over(1) J
        have "current_size s' + actives (array s') + 2 * actives es \<le> length (array s')"
          by (simp add: grows_by_def)
        from Cons.IH [OF this] Inr over(2) True show ?thesis by simp
      qed
    qed
  qed
qed

lemma rehash_spec_depth_2:
  assumes "current_size w + 2 * actives (array w) \<le> 2 * length (array w)"
  shows "rehash_spec (Suc (Suc depth)) P w \<noteq> Inl DepthExceeded"
proof -
  let ?rc = "rehash_spec (Suc depth) P"
  have fits: "rehash_fits ?rc" by (simp add: rehash_pairs_fits)
  from rehash_pairs_split [OF refl, of P "insert_pair P ?rc" w]
  consider (err) e where "rehash_pairs P (insert_pair P ?rc) w = Inl e" "e \<noteq> DepthExceeded"
    | (loop) n where "2 * length (array w) \<le> n"
        "rehash_pairs P (insert_pair P ?rc) w
           = reinsert_pairs (insert_pair P ?rc) (array w)
               (w\<lparr>array := map (\<lambda>e. e\<lparr>type := kEmpty\<rparr>) (resize P (array w) n)\<rparr>)"
    by blast
  then show ?thesis
  proof cases
    case err
    then show ?thesis by auto
  next
    case loop
    let ?s = "w\<lparr>array := map (\<lambda>e. e\<lparr>type := kEmpty\<rparr>) (resize P (array w) n)\<rparr>"
    have "current_size ?s + actives (array ?s) + 2 * actives (array w) \<le> length (array ?s)"
      using assms loop(1) by (simp add: length_resize)
    from reinsert_pairs_nested [OF fits this] loop(2) show ?thesis by simp
  qed
qed

lemma written_fits:
  assumes wf: "well_formed t" and g: "grows_by t w"
  shows "current_size w + 2 * actives (array w) \<le> 2 * length (array w)"
proof -
  let ?n = "length (array t)"
  from wf have p: "prime_nat ?n" and n3: "3 \<le> ?n" and occ: "occupied t \<le> current_size t"
    and c: "current_size t \<le> ?n div 2" by (simp_all add: well_formed_def)
  have "odd ?n"
  proof
    assume "even ?n"
    moreover have "2 \<in> {2..<?n}" using n3 by simp
    ultimately show False using p by (auto simp: prime_nat_def simp del: atLeastLessThan_iff)
  qed
  then obtain m where m: "?n = 2 * m + 1" by (auto elim: oddE)
  with n3 have "1 \<le> m" by simp
  moreover from c m have "current_size t \<le> m" by simp
  moreover have "actives (array t) \<le> current_size t"
    using actives_le_occupied [of t] occ by simp
  ultimately show ?thesis using g m by (simp add: grows_by_def)
qed

lemma insert_with_depth_2:
  assumes "well_formed t"
  shows "insert_with P (rehash_spec (Suc (Suc depth)) P) v k t \<noteq> Inl DepthExceeded"
proof
  assume dx: "insert_with P (rehash_spec (Suc (Suc depth)) P) v k t = Inl DepthExceeded"
  let ?rc = "rehash_spec (Suc (Suc depth)) P"
  from insert_with_cases [OF dx]
  obtain w where g: "grows_by t w"
    and r: "Inl DepthExceeded = (case ?rc w of Inl e \<Rightarrow> Inl e | Inr s' \<Rightarrow> Inr (True, s'))"
    by (auto simp del: rehash_spec.simps)
  from r have "?rc w = Inl DepthExceeded"
    by (cases "?rc w") (simp_all del: rehash_spec.simps)
  with rehash_spec_depth_2 [OF written_fits [OF assms g], of depth P] show False
    by (simp del: rehash_spec.simps)
qed

lemma insert_move_with_cases:
  assumes "insert_move_with P rehash_call v k s = r"
  shows "(\<exists>e. r = Inl e \<and> e \<noteq> DepthExceeded)
         \<or> (\<exists>b s'. r = Inr (b, s'))
         \<or> (\<exists>w. grows_by s w
                \<and> r = (case rehash_call w of Inl e \<Rightarrow> Inl e | Inr s' \<Rightarrow> Inr (True, s')))"
proof (cases "find_position P s (key_to_element P k)")
  case (Inl e)
  with assms find_position_not_depth [of P s "key_to_element P k"] show ?thesis
    by (auto simp: insert_move_with_def)
next
  case (Inr p)
  show ?thesis
  proof (cases "is_active s p")
    case True
    with assms Inr show ?thesis by (auto simp: insert_move_with_def)
  next
    case False
    let ?w = "s\<lparr>array := (array s)[p := \<lparr>element = key_to_element P k, key = default_key P,
                                            type = kActive\<rparr>],
                current_size := current_size s + 1\<rparr>"
    have g: "grows_by s ?w"
      using actives_update_le_Suc [of "array s" p] by (simp add: grows_by_def)
    show ?thesis
    proof (cases "current_size ?w > length (array ?w) div 2")
      case True
      with assms Inr False have "r = (case rehash_call ?w of Inl e \<Rightarrow> Inl e
                                        | Inr s' \<Rightarrow> Inr (True, s'))"
        by (auto simp: insert_move_with_def Let_def)
      with g show ?thesis by blast
    next
      case within: False
      with assms Inr False have "r = Inr (True, ?w)"
        by (auto simp: insert_move_with_def Let_def)
      then show ?thesis by blast
    qed
  qed
qed

lemma insert_move_with_depth_2:
  assumes "well_formed t"
  shows "insert_move_with P (rehash_spec (Suc (Suc depth)) P) v k t \<noteq> Inl DepthExceeded"
proof
  let ?rc = "rehash_spec (Suc (Suc depth)) P"
  assume dx: "insert_move_with P ?rc v k t = Inl DepthExceeded"
  from insert_move_with_cases [OF dx]
  obtain w where g: "grows_by t w"
    and r: "Inl DepthExceeded = (case ?rc w of Inl e \<Rightarrow> Inl e | Inr s' \<Rightarrow> Inr (True, s'))"
    by (auto simp del: rehash_spec.simps)
  from r have "?rc w = Inl DepthExceeded"
    by (cases "?rc w") (simp_all del: rehash_spec.simps)
  with rehash_spec_depth_2 [OF written_fits [OF assms g], of depth P] show False
    by (simp del: rehash_spec.simps)
qed

section \<open>The claims\<close>

subsection \<open>C1: what \<open>rehash\<close> keeps\<close>

text \<open>
  Claim C1 says that the rehash triggered by an insertion re-inserts the value/key pair
  of every Active slot, so that every entry that was Active stays retrievable with the
  same value and the same key. The source re-inserts with
  \<open>insert(std::move(entry.element))\<close>: the key of the entry is not an argument of that
  call. Hence, whatever the overload does, it cannot tell \<open>forget_a\<close> from \<open>forget_b\<close>:
  both tables hold the same elements and keys slot by slot and have the same sequence of
  Active elements, but element 10 is Active with key 1 in the one and with key 2 in the
  other. \<open>rehash\<close> gives the same result for both, so the key returned for 10 afterwards
  is wrong for at least one of them.
\<close>

theorem rehash_forgets_keys:
  "filter (\<lambda>e. type e = kActive) (array forget_a) = [slot 10 1 kActive]
   \<and> filter (\<lambda>e. type e = kActive) (array forget_b) = [slot 10 2 kActive]
   \<and> current_size forget_a > length (array forget_a) div 2
   \<and> current_size forget_b > length (array forget_b) div 2
   \<and> rehash P insert_element forget_a = rehash P insert_element forget_b
   \<and> (case rehash P insert_element forget_a of
         Inl e \<Rightarrow> Inl e | Inr t' \<Rightarrow> get_value P t' 10)
     = (case rehash P insert_element forget_b of
         Inl e \<Rightarrow> Inl e | Inr t' \<Rightarrow> get_value P t' 10)"
proof -
  have np: "next_prime 6 = Inr 7" by code_simp
  have "rehash P insert_element forget_a = rehash P insert_element forget_b"
    by (simp add: rehash_def forget_a_def forget_b_def table_of_def slot_def Let_def
        int_of_size_t_def INT_MAX_def resize_def np split: sum.splits)
  then show ?thesis
    by (simp add: forget_a_def forget_b_def table_of_def slot_def)
qed

subsection \<open>C2: where \<open>find_position\<close> stops\<close>

text \<open>
  Claim C2, as amended: \<open>find_position\<close> returns a position inside the vector whose
  slot is Empty or holds a payload equal to the item, whatever the tag of that slot
  (Active or Deleted), and every slot probed before it is not Empty and holds another
  payload. A Deleted slot is passed when its payload differs from the item and stops
  the search when its payload equals the item.
\<close>

theorem find_position_stop_rule:
  assumes "find_position P t v = Inr p"
  shows "p < length (array t)
         \<and> (type (array t ! p) = kEmpty \<or> element (array t ! p) = v)
         \<and> (\<exists>k. p = probe (length (array t)) (hash_object P v mod length (array t)) k
               \<and> (\<forall>j<k. keeps_probing t v
                     (probe (length (array t)) (hash_object P v mod length (array t)) j)))"
proof -
  let ?n = "length (array t)"
  let ?h = "hash_object P v mod ?n"
  from assms have loop: "find_position_loop t v ?h 1 = Inr p"
    by (auto simp: find_position_def hash_def split: if_splits)
  from find_position_loop_first_stop [OF _ _ loop, of ?h 0]
  have "\<exists>k. p = probe ?n ?h k \<and> (\<forall>j<k. keeps_probing t v (probe ?n ?h j))"
    by auto
  with find_position_loop_stops [OF loop] show ?thesis by simp
qed

theorem find_position_stop_rule_witness:
  "find_position nat_args sparse_table 5 = Inr 4
   \<and> 4 < length (array sparse_table)
   \<and> type (array sparse_table ! 4) = kEmpty
   \<and> type (array sparse_table ! 1) = kDeleted"
proof -
  have found: "find_position nat_args sparse_table 5 = Inr 4" by code_simp
  have tags: "type (array sparse_table ! 4) = kEmpty" "type (array sparse_table ! 1) = kDeleted"
    by code_simp+
  from find_position_stop_rule [OF found] have "4 < length (array sparse_table)" by simp
  with found tags show ?thesis by simp
qed

text \<open>
  The claim as stated fails: the search for 5 stops at slot 2 of \<open>tombstone_table\<close>,
  which is Deleted and holds 5.
\<close>

theorem find_position_stops_at_tombstone:
  "find_position nat_args tombstone_table 5 = Inr 2
   \<and> type (array tombstone_table ! 2) = kDeleted
   \<and> element (array tombstone_table ! 2) = 5"
  by code_simp

subsection \<open>C3: the probe sequence\<close>



subsection \<open>C4: the slot that \<open>insert\<close> writes\<close>

text \<open>
  Claim C4 says that \<open>insert(value, key)\<close> takes its position from
  \<open>find_position(value)\<close>. The source calls \<open>find_position(key)\<close>. On the table
  constructed for the request 5, \<open>find_position(1)\<close> is slot 1, but \<open>insert(1, 2)\<close>
  writes slot 2 and returns true; the value 1 is not found afterwards.
\<close>

theorem insert_probes_by_key:
  "hash_table_new nat_args 5 = Inr empty_table
   \<and> find_position nat_args empty_table 1 = Inr 1
   \<and> insert_entry nat_args insert_element 1 2 empty_table = Inr (True, misplaced_table)
   \<and> array misplaced_table ! 2 = slot 1 2 kActive
   \<and> array misplaced_table ! 1 = slot 0 0 kEmpty
   \<and> contains_value nat_args misplaced_table 1 = Inr False"
proof -
  have "hash_table_new nat_args 5 = Inr empty_table" by code_simp
  moreover have "find_position nat_args empty_table 1 = Inr 1" by code_simp
  moreover have "find_position nat_args empty_table 2 = Inr 2" by code_simp
  then have "insert_entry nat_args insert_element 1 2 empty_table = Inr (True, misplaced_table)"
    by (simp add: insert_entry_def nat_args_def empty_table_def misplaced_table_def
        table_of_def slot_def is_active_def Let_def)
  moreover have "array misplaced_table ! 2 = slot 1 2 kActive"
    "array misplaced_table ! 1 = slot 0 0 kEmpty" by code_simp+
  moreover have "contains_value nat_args misplaced_table 1 = Inr False" by code_simp
  ultimately show ?thesis by simp
qed

subsection \<open>C5: the accessors at a Deleted slot\<close>

text \<open>
  Claim C5 says that \<open>get_key\<close> and \<open>get_value\<close> signal NotFound whenever the position
  is not Active, in particular at a Deleted slot. The test of the source,
  \<open>type == !kActive\<close>, holds for kEmpty only. After \<open>insert(5, 5)\<close> and \<open>remove(5)\<close> on
  the table constructed for the request 3, the position of 5 is the Deleted slot 2,
  and both accessors return what is stored there.
\<close>

theorem accessors_return_deleted_entry:
  "hash_table_new nat_args 3 = Inr (table_of [slot 0 0 kEmpty, slot 0 0 kEmpty, slot 0 0 kEmpty] 0)
   \<and> insert_entry nat_args insert_element 5 5
        (table_of [slot 0 0 kEmpty, slot 0 0 kEmpty, slot 0 0 kEmpty] 0)
       = Inr (True, one_entry_table)
   \<and> remove_value nat_args one_entry_table 5 = Inr (True, tombstone_table)
   \<and> find_position nat_args tombstone_table 5 = Inr 2
   \<and> type (array tombstone_table ! 2) = kDeleted
   \<and> get_value nat_args tombstone_table 5 = Inr 5
   \<and> get_key nat_args tombstone_table 5 = Inr 5"
proof -
  let ?new = "table_of [slot 0 0 kEmpty, slot 0 0 kEmpty, slot 0 0 kEmpty] 0"
  have "hash_table_new nat_args 3 = Inr ?new" by code_simp
  moreover have "find_position nat_args ?new 5 = Inr 2" by code_simp
  then have "insert_entry nat_args insert_element 5 5 ?new = Inr (True, one_entry_table)"
    by (simp add: insert_entry_def nat_args_def one_entry_table_def
        table_of_def slot_def is_active_def Let_def)
  moreover have "remove_value nat_args one_entry_table 5 = Inr (True, tombstone_table)"
    by code_simp
  moreover have "find_position nat_args tombstone_table 5 = Inr 2" by code_simp
  moreover have "type (array tombstone_table ! 2) = kDeleted" by code_simp
  moreover have "get_value nat_args tombstone_table 5 = Inr 5" by code_simp
  moreover have "get_key nat_args tombstone_table 5 = Inr 5" by code_simp
  ultimately show ?thesis by simp
qed

subsection \<open>C6: the load bound\<close>



subsection \<open>C7: \<open>find_position\<close> returns\<close>

text \<open>
  Claim C7: in every table state that satisfies the load-factor invariant, that is
  with a prime capacity and at most \<open>capacity / 2\<close> slots that are not Empty (the count
  of the source covers the Deleted slots too; lemma \<open>reachable_well_formed\<close>, for the
  tables the operations produce),
  \<open>find_position\<close> returns for every item: within \<open>capacity / 2 + 1\<close> attempts it reaches a
  slot inside the vector that is Empty or holds the item, and returns that position.
  \<open>contains\<close>, \<open>remove\<close> and \<open>get_value\<close>, which do nothing else that could fail,
  complete as well (\<open>get_value\<close> possibly with NotFound).
\<close>

theorem find_position_returns:
  assumes p: "prime_nat (length (array t))"
    and occ: "occupied t \<le> length (array t) div 2"
  shows "\<exists>k \<le> length (array t) div 2.
           find_position P t v = Inr ((hash_object P v + k * k) mod length (array t))
           \<and> (hash_object P v + k * k) mod length (array t) < length (array t)
           \<and> \<not> keeps_probing t v ((hash_object P v + k * k) mod length (array t))
           \<and> contains_value P t v
               = Inr (is_active t ((hash_object P v + k * k) mod length (array t)))
           \<and> (\<exists>r. remove_value P t v = Inr r)
           \<and> (get_value P t v = Inl NotFound \<or> (\<exists>r. get_value P t v = Inr r))"
proof -
  let ?n = "length (array t)"
  let ?h = "hash_object P v mod ?n"
  let ?idx = "\<lambda>k. (?h + k * k) mod ?n"
  have pos: "0 < ?n" using p by (auto simp: prime_nat_def)
  then have h: "hash P t v = Inr ?h" "?h < ?n" by (simp_all add: hash_def)
  define k where "k = (LEAST k. \<not> keeps_probing t v (?idx k))"
  from some_probe_stops [OF p occ, of v ?h] obtain k' where
    k': "k' \<le> ?n div 2" "\<not> keeps_probing t v (?idx k')" by blast
  then have stop: "\<not> keeps_probing t v (?idx k)"
    unfolding k_def by (metis (mono_tags, lifting) LeastI)
  have kle: "k \<le> k'" unfolding k_def using k'(2) by (rule Least_le)
  have before: "\<forall>j<k. keeps_probing t v (?idx j)"
    unfolding k_def using not_less_Least by blast
  have quad: "probe ?n ?h j = ?idx j" if "j \<le> k" for j
    using that kle k'(1) h(2) by (intro probe_quadratic) linarith+
  have "find_position_loop t v ?h 1 = find_position_loop t v (probe ?n ?h k) (2 * k + 1)"
    using before quad pos by (intro find_position_loop_skip) simp
  also have "\<dots> = Inr (?idx k)"
    using stop pos by (simp add: quad find_position_loop_stop_here)
  finally have found: "find_position P t v = Inr (?idx k)"
    using h by (simp add: find_position_def)
  have same: "?idx k = (hash_object P v + k * k) mod ?n" by (simp add: mod_simps)
  from found have "contains_value P t v = Inr (is_active t (?idx k))"
    and "\<exists>r. remove_value P t v = Inr r"
    and "get_value P t v = Inl NotFound \<or> (\<exists>r. get_value P t v = Inr r)"
    by (auto simp: contains_value_def remove_value_def get_value_def)
  with found stop kle k'(1) pos show ?thesis
    unfolding same by (intro exI [of _ k]) simp
qed

theorem find_position_returns_witness:
  "prime_nat (length (array sparse_table))
   \<and> occupied sparse_table \<le> length (array sparse_table) div 2
   \<and> find_position nat_args sparse_table 5 = Inr 4
   \<and> \<not> keeps_probing sparse_table 5 4
   \<and> contains_value nat_args sparse_table 5 = Inr False"
proof -
  have p: "prime_nat (length (array sparse_table))" by code_simp
  have occ: "occupied sparse_table \<le> length (array sparse_table) div 2" by code_simp
  have found: "find_position nat_args sparse_table 5 = Inr 4" by code_simp
  have idle: "\<not> is_active sparse_table 4" by code_simp
  from find_position_returns [OF p occ, of nat_args 5] found
  have "\<not> keeps_probing sparse_table 5 4 \<and> contains_value nat_args sparse_table 5 = Inr False"
    using idle by auto
  with p occ found show ?thesis by simp
qed

subsection \<open>C8: removal, then absence\<close>

text \<open>
  Claim C8: when \<open>remove(x)\<close> returns, \<open>contains(x)\<close> is false in the resulting table,
  and after a successful \<open>remove(x)\<close> a second \<open>remove(x)\<close> returns false and changes
  nothing.
\<close>

theorem remove_value_then_absent:
  assumes "remove_value P t x = Inr (b, t')"
  shows "contains_value P t' x = Inr False \<and> (b \<longrightarrow> remove_value P t' x = Inr (False, t'))"
proof -
  from assms obtain p where fp: "find_position P t x = Inr p"
    by (auto simp: remove_value_def split: sum.splits)
  then have inr: "p < length (array t)" by (rule find_position_in_range)
  from fp obtain h where h: "hash P t x = Inr h" and loop: "find_position_loop t x h 1 = Inr p"
    by (auto simp: find_position_def split: sum.splits)
  show ?thesis
  proof (cases "is_active t p")
    case False
    with assms fp have "t' = t" "b = False"
      by (auto simp: remove_value_def)
    with fp False show ?thesis
      by (simp add: contains_value_def)
  next
    case True
    with assms fp have t': "t' = t\<lparr>array := (array t)[p := (array t ! p)\<lparr>type := kDeleted\<rparr>]\<rparr>"
      by (auto simp: remove_value_def)
    from True find_position_stops [OF fp] have el: "element (array t ! p) = x"
      by (auto simp: is_active_def)
    have "hash P t' x = Inr h"
      using h by (simp add: hash_def t' split: if_splits)
    moreover have "find_position_loop t' x h 1 = Inr p"
      unfolding t' using find_position_loop_mark_deleted [OF inr el] loop by simp
    ultimately have fp': "find_position P t' x = Inr p"
      by (simp add: find_position_def)
    have "\<not> is_active t' p"
      using inr by (simp add: is_active_def t')
    with fp' show ?thesis
      by (simp add: contains_value_def remove_value_def)
  qed
qed

theorem remove_value_then_absent_witness:
  "remove_value nat_args one_entry_table 5 = Inr (True, tombstone_table)
   \<and> contains_value nat_args tombstone_table 5 = Inr False
   \<and> remove_value nat_args tombstone_table 5 = Inr (False, tombstone_table)"
proof -
  have removed: "remove_value nat_args one_entry_table 5 = Inr (True, tombstone_table)"
    by code_simp
  from remove_value_then_absent [OF removed] removed show ?thesis by simp
qed

subsection \<open>C9: the capacity of a new table\<close>

text \<open>
  Claim C9, as amended: for every requested capacity of at least 3 whose smallest
  prime \<open>p\<close> at or above it is below \<open>46339\<^sup>2 = 2147302921\<close> (beyond that the
  \<open>int\<close> product \<open>counter * counter\<close> of \<open>is_prime\<close> overflows), the constructor
  yields a table of exactly \<open>p\<close> slots, every one Empty, with count 0. Requesting 10
  yields capacity 11.
\<close>

theorem constructor_capacity:
  assumes "3 \<le> requested"
    and "smallest_prime_from (nat requested) p"
    and "p < 2147302921"
  shows "hash_table_new P requested
           = Inr \<lparr>array = replicate p (default_entry P), current_size = 0\<rparr>"
proof -
  from assms(2) have pr: "prime_nat p" and le: "nat requested \<le> p"
    and least: "\<forall>q\<in>{nat requested..<p}. \<not> prime_nat q"
    by (simp_all add: smallest_prime_from_def)
  have oddp: "odd p"
  proof
    assume "even p"
    moreover have "2 < p" using le assms(1) pr by (cases "p = 2") (auto simp: prime_nat_def)
    ultimately show False using pr by (auto simp: prime_nat_def)
  qed
  let ?m = "if requested smod 2 = 0 then requested + 1 else requested"
  have ev: "requested smod 2 = 0 \<longleftrightarrow> even requested"
    using assms(1) by (simp add: smod_nonneg even_iff_mod_2_eq_zero)
  have np: "\<not> prime_nat (nat requested)" if "even requested"
  proof -
    have "2 \<in> {2..<nat requested}" using assms(1) that by (cases "requested = 3") auto
    moreover have "2 dvd nat requested" using that assms(1) by (simp add: even_nat_iff)
    ultimately show ?thesis by (auto simp: prime_nat_def simp del: atLeastLessThan_iff)
  qed
  have "next_prime_loop ?m = Inr (int p)"
  proof (rule next_prime_loop_finds)
    show "odd ?m" by (simp add: ev)
    show "odd (int p)" using oddp by simp
    show "1 \<le> ?m" using assms(1) by simp
    show "?m \<le> int p"
    proof (cases "even requested")
      case True
      with np pr have "nat requested \<noteq> p" by auto
      with le True show ?thesis by (simp add: ev)
    next
      case False
      with le show ?thesis by (simp add: ev)
    qed
    show "int p < 46339 * 46339" using assms(3) by simp
    show "prime_nat (nat (int p))" using pr by simp
    show "\<forall>q. ?m \<le> q \<and> q < int p \<longrightarrow> \<not> prime_nat (nat q)"
    proof (intro allI impI)
      fix q assume q: "?m \<le> q \<and> q < int p"
      then have "nat q \<in> {nat requested..<p}" using assms(1) by (auto split: if_splits)
      with least show "\<not> prime_nat (nat q)" by blast
    qed
  qed
  then have "next_prime requested = Inr (int p)" by (simp add: next_prime_def)
  then show ?thesis
    by (simp add: hash_table_new_def make_empty_def default_entry_def)
qed

theorem constructor_capacity_witness:
  "(3::int) \<le> 10
   \<and> smallest_prime_from (nat 10) 11
   \<and> (11::nat) < 2147302921
   \<and> hash_table_new nat_args 10
       = Inr \<lparr>array = replicate 11 (default_entry nat_args), current_size = 0\<rparr>"
proof -
  have r: "(3::int) \<le> 10" by simp
  have sp: "smallest_prime_from (nat 10) 11" by code_simp
  have b: "(11::nat) < 2147302921" by simp
  from constructor_capacity [OF r sp b, of nat_args] r sp b show ?thesis by simp
qed

text \<open>
  The claim as stated fails at the request 2: \<open>next_prime\<close> makes an even number odd
  before it tests it, so the table has 3 slots, not 2.
\<close>

theorem capacity_for_request_2:
  "next_prime 2 = Inr 3
   \<and> hash_table_new nat_args 2
       = Inr (table_of [slot 0 0 kEmpty, slot 0 0 kEmpty, slot 0 0 kEmpty] 0)"
  by code_simp

subsection \<open>C10: what \<open>remove\<close> changes\<close>

text \<open>
  Claim C10: when \<open>remove(x)\<close> returns true, the slot at \<open>find_position(x)\<close> was Active
  and is now Deleted, with its element and key as before; every other slot, the
  capacity and the count are unchanged. When it returns false, the table is unchanged.
\<close>

theorem remove_value_frame:
  assumes "remove_value P t x = Inr (b, t')"
  shows "if b
         then (\<exists>p. find_position P t x = Inr p \<and> p < length (array t)
                 \<and> type (array t ! p) = kActive
                 \<and> type (array t' ! p) = kDeleted
                 \<and> element (array t' ! p) = element (array t ! p)
                 \<and> key (array t' ! p) = key (array t ! p)
                 \<and> (\<forall>i. i \<noteq> p \<longrightarrow> array t' ! i = array t ! i)
                 \<and> length (array t') = length (array t)
                 \<and> current_size t' = current_size t)
         else t' = t"
proof -
  from assms obtain p where fp: "find_position P t x = Inr p"
    by (auto simp: remove_value_def split: sum.splits)
  then have inr: "p < length (array t)" by (rule find_position_in_range)
  show ?thesis
  proof (cases "is_active t p")
    case False
    with assms fp show ?thesis by (auto simp: remove_value_def)
  next
    case True
    with assms fp have "b" and "t' = t\<lparr>array := (array t)[p := (array t ! p)\<lparr>type := kDeleted\<rparr>]\<rparr>"
      by (auto simp: remove_value_def)
    with fp inr True show ?thesis
      by (simp add: is_active_def)
  qed
qed

theorem remove_value_frame_witness:
  "remove_value nat_args one_entry_table 5 = Inr (True, tombstone_table)
   \<and> find_position nat_args one_entry_table 5 = Inr 2
   \<and> type (array tombstone_table ! 2) = kDeleted
   \<and> element (array tombstone_table ! 2) = element (array one_entry_table ! 2)
   \<and> key (array tombstone_table ! 2) = key (array one_entry_table ! 2)
   \<and> array tombstone_table ! 0 = array one_entry_table ! 0
   \<and> array tombstone_table ! 1 = array one_entry_table ! 1
   \<and> length (array tombstone_table) = length (array one_entry_table)
   \<and> current_size tombstone_table = current_size one_entry_table"
proof -
  have removed: "remove_value nat_args one_entry_table 5 = Inr (True, tombstone_table)"
    by code_simp
  have found: "find_position nat_args one_entry_table 5 = Inr 2" by code_simp
  from remove_value_frame [OF removed] found removed show ?thesis by auto
qed

end
